theory Spec2Isabelle
  imports Main "HOL-Library.AList"
begin

section \<open>Python values and the object store\<close>

text \<open>
  The engine of \<^verbatim>\<open>app/engine.py\<close> hands one mutable dictionary, the state, to
  every node function of a run, and copies it with \<^verbatim>\<open>dict(...)\<close>. Whether such a copy
  is independent of the original depends on which objects are shared, so mutable
  objects live in an explicit store: an address is an index into the list of all
  objects allocated so far, a new object is appended at the end, and nothing is freed.
  A dictionary keeps its keys in insertion order, as Python's does.
\<close>

type_synonym addr = nat

datatype val = VNone | VBool bool | VInt int | VStr string | VRef addr

type_synonym dict = "(string \<times> val) list"

datatype obj = ODict dict | OList "val list"

type_synonym heap = "obj list"

datatype exn = KeyError string | ValueError string | TypeError string | Exception string

datatype 'a outcome = Returns 'a | Raises exn

text \<open>A quoted name inside a message, as the f-strings of the source produce it.\<close>

definition quoted :: "string \<Rightarrow> string" where
  "quoted s = [CHR 0x27] @ s @ [CHR 0x27]"

text \<open>
  \<^verbatim>\<open>dict(x)\<close> for an object \<open>x\<close> of the store: the key/value pairs of a dictionary
  are copied one level deep, so a value that is a reference is copied as a reference.
  The state of a run is always a dictionary in Python; anything else at that address
  is outside the signature \<^verbatim>\<open>State = Dict[str, Any]\<close> and is answered with TypeError.
\<close>

definition dict_of :: "heap \<Rightarrow> addr \<Rightarrow> exn + dict" where
  "dict_of h a =
     (if a < length h
      then (case h ! a of ODict d \<Rightarrow> Inr d | OList vs \<Rightarrow> Inl (TypeError ''not a mapping''))
      else Inl (TypeError ''not a mapping''))"

section \<open>Registries\<close>

type_synonym ToolFn = "val list \<Rightarrow> heap \<Rightarrow> val outcome \<times> heap"

type_synonym tool_table = "string \<rightharpoonup> ToolFn"

text \<open>
  A node function receives the address of the state and the tool table, reads and
  writes the store, and returns an optional successor name or raises. It is a total
  function here: node logic that never returns is outside the model.
\<close>

type_synonym NodeFn = "addr \<Rightarrow> tool_table \<Rightarrow> heap \<Rightarrow> string option outcome \<times> heap"


definition ToolRegistry_get :: "tool_table \<Rightarrow> string \<Rightarrow> exn + ToolFn" where
  "ToolRegistry_get tools nm = (case tools nm of None \<Rightarrow> Inl (KeyError nm) | Some f \<Rightarrow> Inr f)"

definition ToolRegistry_all :: "tool_table \<Rightarrow> tool_table" where
  "ToolRegistry_all tools = tools"

definition NodeRegistry_register :: "(string \<rightharpoonup> NodeFn) \<Rightarrow> string \<Rightarrow> NodeFn \<Rightarrow> (string \<rightharpoonup> NodeFn)" where
  "NodeRegistry_register ns nm f = ns(nm \<mapsto> f)"

definition NodeRegistry_get :: "(string \<rightharpoonup> NodeFn) \<Rightarrow> string \<Rightarrow> exn + NodeFn" where
  "NodeRegistry_get ns nm = (case ns nm of None \<Rightarrow> Inl (KeyError nm) | Some f \<Rightarrow> Inr f)"

section \<open>Graph definitions and run records\<close>

record NodeDef =
  name :: string
  func :: NodeFn
  description :: string

record GraphDef =
  id_g :: string
  name_g :: string
  nodes :: "string \<rightharpoonup> NodeDef"
  edges :: "string \<rightharpoonup> string option"
  start_node :: string

text \<open>
  A log entry is the dictionary appended to \<^verbatim>\<open>run.log\<close>; its two snapshots are the
  addresses of the dictionaries that \<^verbatim>\<open>dict(run.state)\<close> allocated.
\<close>

record log_entry =
  step :: int
  node :: string
  before :: addr
  after :: addr
  next_override :: "string option"

text \<open>
  Clock readings are only stored by the engine, never computed with; they are
  integers here.
\<close>

record RunRecord =
  id_r :: string
  graph_id :: string
  state :: addr
  current_node :: "string option"
  log :: "log_entry list"
  finished :: bool
  started_at :: int
  finished_at :: "int option"

record Engine =
  tools_registry :: tool_table
  node_registry :: "string \<rightharpoonup> NodeFn"
  graphs :: "string \<rightharpoonup> GraphDef"
  runs :: "string \<rightharpoonup> RunRecord"

section \<open>Graph management\<close>

definition add_graph :: "Engine \<Rightarrow> GraphDef \<Rightarrow> Engine" where
  "add_graph eng graph = eng\<lparr>graphs := (graphs eng)(id_g graph \<mapsto> graph)\<rparr>"

text \<open>
  The loop of \<^verbatim>\<open>create_graph_from_spec\<close> over \<^verbatim>\<open>node_specs.items()\<close>: the specs are
  visited in order, and the first function name that the registry does not know ends
  the loop with the registry's KeyError.
\<close>

fun resolve_nodes ::
  "(string \<rightharpoonup> NodeFn) \<Rightarrow> (string \<times> string) list \<Rightarrow> (string \<rightharpoonup> NodeDef) \<Rightarrow> exn + (string \<rightharpoonup> NodeDef)"
where
  "resolve_nodes reg [] ns = Inr ns"
| "resolve_nodes reg ((node_name, fn_name) # specs) ns =
     (case NodeRegistry_get reg fn_name of
        Inl e \<Rightarrow> Inl e
      | Inr fn \<Rightarrow>
          resolve_nodes reg specs
            (ns(node_name \<mapsto> \<lparr>name = node_name, func = fn, description = []\<rparr>)))"

text \<open>
  \<^verbatim>\<open>uuid.uuid4()\<close> is an input of the environment: the identifier it returns is the
  argument \<open>gid\<close>.
\<close>

definition create_graph_from_spec ::
  "Engine \<Rightarrow> string \<Rightarrow> (string \<times> string) list \<Rightarrow> (string \<rightharpoonup> string option) \<Rightarrow> string \<Rightarrow> string
     \<Rightarrow> (exn + GraphDef) \<times> Engine"
where
  "create_graph_from_spec eng nm node_specs es start gid =
     (case resolve_nodes (node_registry eng) node_specs Map.empty of
        Inl e \<Rightarrow> (Inl e, eng)
      | Inr ns \<Rightarrow>
          if start \<notin> dom ns
          then (Inl (ValueError (''start_node '' @ quoted start @ '' not in nodes'')), eng)
          else
            let graph = \<lparr>id_g = gid, name_g = nm, nodes = ns, edges = es, start_node = start\<rparr>
            in (Inr graph, add_graph eng graph))"

section \<open>Execution\<close>

text \<open>\<^verbatim>\<open>graph.edges.get(k)\<close>: a missing key and a key bound to None both give None.\<close>

definition edges_get :: "GraphDef \<Rightarrow> string \<Rightarrow> string option" where
  "edges_get graph k = (case edges graph k of None \<Rightarrow> None | Some t \<Rightarrow> t)"

text \<open>
  Why one iteration stopped the run: the lookup \<^verbatim>\<open>graph.nodes[run.current_node]\<close>
  failed, the node function raised, or the state could not be copied.
\<close>

datatype fault = NodeLookup exn | NodeLogic exn | Snapshot exn

fun exn_of :: "fault \<Rightarrow> exn" where
  "exn_of (NodeLookup e) = e"
| "exn_of (NodeLogic e) = e"
| "exn_of (Snapshot e) = e"

text \<open>
  The body of the while loop of \<^verbatim>\<open>run_graph\<close>, up to the assignment of
  \<^verbatim>\<open>run.current_node\<close>, for a run whose current node is \<open>cn\<close>. An exception leaves the
  record as it is and keeps what was written to the store until then.
\<close>

definition run_step ::
  "GraphDef \<Rightarrow> tool_table \<Rightarrow> string \<Rightarrow> int \<Rightarrow> RunRecord \<Rightarrow> heap \<Rightarrow> (fault + RunRecord) \<times> heap"
where
  "run_step graph tools cn stp run h =
     (case nodes graph cn of
        None \<Rightarrow> (Inl (NodeLookup (KeyError cn)), h)
      | Some node_def \<Rightarrow>
          (case dict_of h (state run) of
             Inl e \<Rightarrow> (Inl (Snapshot e), h)
           | Inr d0 \<Rightarrow>
               let h1 = h @ [ODict d0] in
               (case func node_def (state run) tools h1 of
                  (Raises e, h2) \<Rightarrow> (Inl (NodeLogic e), h2)
                | (Returns ov, h2) \<Rightarrow>
                    (case dict_of h2 (state run) of
                       Inl e \<Rightarrow> (Inl (Snapshot e), h2)
                     | Inr d1 \<Rightarrow>
                         let h3 = h2 @ [ODict d1];
                             entry = \<lparr>step = stp, node = name node_def, before = length h,
                                      after = length h2, next_override = ov\<rparr>;
                             run1 = run\<lparr>log := log run @ [entry]\<rparr>
                         in (Inr (run1\<lparr>current_node :=
                                      (case ov of Some nxt \<Rightarrow> Some nxt
                                       | None \<Rightarrow> edges_get graph (name node_def))\<rparr>),
                             h3)))))"

text \<open>
  The while loop. Its result is the fault that ended it, if any, the record, the step
  counter and the store at that moment.
\<close>

function run_loop ::
  "GraphDef \<Rightarrow> tool_table \<Rightarrow> int \<Rightarrow> int \<Rightarrow> RunRecord \<Rightarrow> heap \<Rightarrow> fault option \<times> int \<times> RunRecord \<times> heap"
where
  "run_loop graph tools max_steps stp run h =
     (case current_node run of
        None \<Rightarrow> (None, stp, run, h)
      | Some cn \<Rightarrow>
          if stp < max_steps
          then (case run_step graph tools cn stp run h of
                  (Inl f, h') \<Rightarrow> (Some f, stp, run, h')
                | (Inr run', h') \<Rightarrow> run_loop graph tools max_steps (stp + 1) run' h')
          else (None, stp, run, h))"
  by pat_completeness auto
termination
  by (relation "measure (\<lambda>(graph, tools, max_steps, stp, run, h). nat (max_steps - stp))") auto

text \<open>
  \<^verbatim>\<open>dict(initial_state or {})\<close>: None and the empty dictionary both give a new empty
  dictionary, any other dictionary gives a copy of its top level.
\<close>

definition initial_dict :: "heap \<Rightarrow> addr option \<Rightarrow> exn + dict" where
  "initial_dict h initial_state =
     (case initial_state of None \<Rightarrow> Inr [] | Some c \<Rightarrow> dict_of h c)"

text \<open>
  \<^verbatim>\<open>run_graph\<close>. The identifier from \<^verbatim>\<open>uuid.uuid4()\<close> and the two readings of
  \<^verbatim>\<open>time.time()\<close> are arguments. The record is one object: the run table refers to it
  from before the loop, the loop changes it in place, and the caller gets the same
  object. So the entry made before the loop is written again with the record as it is
  when control leaves the function, also when an exception leaves it. No node function
  holds a reference to the record or to the engine.
\<close>

definition run_graph ::
  "Engine \<Rightarrow> string \<Rightarrow> addr option \<Rightarrow> int \<Rightarrow> string \<Rightarrow> int \<Rightarrow> int \<Rightarrow> heap
     \<Rightarrow> (exn + RunRecord) \<times> Engine \<times> heap"
where
  "run_graph eng gid initial_state max_steps run_id t0 t1 h =
     (case graphs eng gid of
        None \<Rightarrow> (Inl (KeyError (''Graph '' @ quoted gid @ '' not found'')), eng, h)
      | Some graph \<Rightarrow>
          (case initial_dict h initial_state of
             Inl e \<Rightarrow> (Inl e, eng, h)
           | Inr d \<Rightarrow>
               let run = \<lparr>id_r = run_id, graph_id = gid, state = length h,
                          current_node = Some (start_node graph), log = [], finished = False,
                          started_at = t0, finished_at = None\<rparr>;
                   eng1 = eng\<lparr>runs := (runs eng)(run_id \<mapsto> run)\<rparr>;
                   tools = ToolRegistry_all (tools_registry eng1)
               in (case run_loop graph tools max_steps 0 run (h @ [ODict d]) of
                     (Some f, stp, run', h') \<Rightarrow>
                       (Inl (exn_of f), eng1\<lparr>runs := (runs eng1)(run_id \<mapsto> run')\<rparr>, h')
                   | (None, stp, run', h') \<Rightarrow>
                       let run'' = run'\<lparr>finished := True, finished_at := Some t1\<rparr>
                       in (Inr run'', eng1\<lparr>runs := (runs eng1)(run_id \<mapsto> run'')\<rparr>, h'))))"

text \<open>The defaults of the signature: no initial state, a ceiling of 100 steps.\<close>

definition run_graph_default ::
  "Engine \<Rightarrow> string \<Rightarrow> string \<Rightarrow> int \<Rightarrow> int \<Rightarrow> heap \<Rightarrow> (exn + RunRecord) \<times> Engine \<times> heap"
where
  "run_graph_default eng gid run_id t0 t1 h = run_graph eng gid None 100 run_id t0 t1 h"

definition get_run :: "Engine \<Rightarrow> string \<Rightarrow> exn + RunRecord" where
  "get_run eng run_id =
     (case runs eng run_id of
        None \<Rightarrow> Inl (KeyError (''Run '' @ quoted run_id @ '' not found''))
      | Some r \<Rightarrow> Inr r)"

section \<open>Counting the invocations of node functions\<close>

text \<open>
  The same computation once more, with a counter that is passed along and that
  \<open>invoke\<close>, the call \<^verbatim>\<open>node_def.func(run.state, tools)\<close>, increments: every application
  of a node function goes through \<open>invoke\<close>. Apart from the counter the three functions
  are those above, which is proved below (\<open>run_step_counted_fst\<close>,
  \<open>run_loop_counted_fst\<close>, \<open>run_graph_counted_fst\<close>).
\<close>

definition invoke ::
  "NodeDef \<Rightarrow> addr \<Rightarrow> tool_table \<Rightarrow> heap \<Rightarrow> nat \<Rightarrow> (string option outcome \<times> heap) \<times> nat"
where
  "invoke node_def a tools h calls = (func node_def a tools h, Suc calls)"

definition run_step_counted ::
  "GraphDef \<Rightarrow> tool_table \<Rightarrow> string \<Rightarrow> int \<Rightarrow> RunRecord \<Rightarrow> heap \<Rightarrow> nat
     \<Rightarrow> ((fault + RunRecord) \<times> heap) \<times> nat"
where
  "run_step_counted graph tools cn stp run h calls =
     (case nodes graph cn of
        None \<Rightarrow> ((Inl (NodeLookup (KeyError cn)), h), calls)
      | Some node_def \<Rightarrow>
          (case dict_of h (state run) of
             Inl e \<Rightarrow> ((Inl (Snapshot e), h), calls)
           | Inr d0 \<Rightarrow>
               let h1 = h @ [ODict d0] in
               (case invoke node_def (state run) tools h1 calls of
                  ((Raises e, h2), calls') \<Rightarrow> ((Inl (NodeLogic e), h2), calls')
                | ((Returns ov, h2), calls') \<Rightarrow>
                    (case dict_of h2 (state run) of
                       Inl e \<Rightarrow> ((Inl (Snapshot e), h2), calls')
                     | Inr d1 \<Rightarrow>
                         let h3 = h2 @ [ODict d1];
                             entry = \<lparr>step = stp, node = name node_def, before = length h,
                                      after = length h2, next_override = ov\<rparr>;
                             run1 = run\<lparr>log := log run @ [entry]\<rparr>
                         in ((Inr (run1\<lparr>current_node :=
                                       (case ov of Some nxt \<Rightarrow> Some nxt
                                        | None \<Rightarrow> edges_get graph (name node_def))\<rparr>),
                              h3), calls')))))"

function run_loop_counted ::
  "GraphDef \<Rightarrow> tool_table \<Rightarrow> int \<Rightarrow> int \<Rightarrow> RunRecord \<Rightarrow> heap \<Rightarrow> nat
     \<Rightarrow> (fault option \<times> int \<times> RunRecord \<times> heap) \<times> nat"
where
  "run_loop_counted graph tools max_steps stp run h calls =
     (case current_node run of
        None \<Rightarrow> ((None, stp, run, h), calls)
      | Some cn \<Rightarrow>
          if stp < max_steps
          then (case run_step_counted graph tools cn stp run h calls of
                  ((Inl f, h'), calls') \<Rightarrow> ((Some f, stp, run, h'), calls')
                | ((Inr run', h'), calls') \<Rightarrow>
                    run_loop_counted graph tools max_steps (stp + 1) run' h' calls')
          else ((None, stp, run, h), calls))"
  by pat_completeness auto
termination
  by (relation "measure (\<lambda>(graph, tools, max_steps, stp, run, h, calls). nat (max_steps - stp))")
    auto

text \<open>A call of \<^verbatim>\<open>run_graph\<close> starts with no invocation made.\<close>

definition run_graph_counted ::
  "Engine \<Rightarrow> string \<Rightarrow> addr option \<Rightarrow> int \<Rightarrow> string \<Rightarrow> int \<Rightarrow> int \<Rightarrow> heap
     \<Rightarrow> ((exn + RunRecord) \<times> Engine \<times> heap) \<times> nat"
where
  "run_graph_counted eng gid initial_state max_steps run_id t0 t1 h =
     (case graphs eng gid of
        None \<Rightarrow> ((Inl (KeyError (''Graph '' @ quoted gid @ '' not found'')), eng, h), 0)
      | Some graph \<Rightarrow>
          (case initial_dict h initial_state of
             Inl e \<Rightarrow> ((Inl e, eng, h), 0)
           | Inr d \<Rightarrow>
               let run = \<lparr>id_r = run_id, graph_id = gid, state = length h,
                          current_node = Some (start_node graph), log = [], finished = False,
                          started_at = t0, finished_at = None\<rparr>;
                   eng1 = eng\<lparr>runs := (runs eng)(run_id \<mapsto> run)\<rparr>;
                   tools = ToolRegistry_all (tools_registry eng1)
               in (case run_loop_counted graph tools max_steps 0 run (h @ [ODict d]) 0 of
                     ((Some f, stp, run', h'), calls) \<Rightarrow>
                       ((Inl (exn_of f), eng1\<lparr>runs := (runs eng1)(run_id \<mapsto> run')\<rparr>, h'), calls)
                   | ((None, stp, run', h'), calls) \<Rightarrow>
                       let run'' = run'\<lparr>finished := True, finished_at := Some t1\<rparr>
                       in ((Inr run'', eng1\<lparr>runs := (runs eng1)(run_id \<mapsto> run'')\<rparr>, h'),
                           calls))))"

section \<open>Sharing between objects of the store\<close>

text \<open>
  The addresses an object mentions, and the objects that can be reached from an
  address by following references. A store is closed when it has no dangling reference.
\<close>

fun val_refs :: "val \<Rightarrow> addr set" where
  "val_refs (VRef p) = {p}"
| "val_refs v = {}"

fun refs_of :: "obj \<Rightarrow> addr set" where
  "refs_of (ODict d) = (\<Union>v \<in> snd ` set d. val_refs v)"
| "refs_of (OList vs) = (\<Union>v \<in> set vs. val_refs v)"

inductive_set reach :: "heap \<Rightarrow> addr \<Rightarrow> addr set" for h :: heap and a :: addr where
  start: "a \<in> reach h a"
| follow: "p \<in> reach h a \<Longrightarrow> p < length h \<Longrightarrow> q \<in> refs_of (h ! p) \<Longrightarrow> q \<in> reach h a"

definition closed :: "heap \<Rightarrow> bool" where
  "closed h \<longleftrightarrow> (\<forall>p < length h. refs_of (h ! p) \<subseteq> {..<length h})"

text \<open>
  What a Python function can do to the store with the references it is given: it
  allocates, and it writes to objects it can reach from its argument. An object that
  exists and is out of reach keeps its contents and stays out of reach.
\<close>

definition frame_kept :: "addr \<Rightarrow> heap \<Rightarrow> heap \<Rightarrow> bool" where
  "frame_kept a h h' \<longleftrightarrow>
     length h \<le> length h' \<and> closed h' \<and>
     (\<forall>p < length h. p \<notin> reach h a \<longrightarrow> h' ! p = h ! p \<and> p \<notin> reach h' a)"

text \<open>
  A node function keeps to that when it is called with the tool table \<open>tools\<close>, the one
  the engine passes on every call of a run. What the function does with another table is
  not constrained: a node that calls a tool of its table behaves as that tool does.
\<close>

definition respects_frame :: "tool_table \<Rightarrow> NodeFn \<Rightarrow> bool" where
  "respects_frame tools f \<longleftrightarrow>
     (\<forall>a h. closed h \<and> a < length h \<longrightarrow> frame_kept a h (snd (f a tools h)))"

definition frames_ok :: "tool_table \<Rightarrow> GraphDef \<Rightarrow> bool" where
  "frames_ok tools graph \<longleftrightarrow> (\<forall>nd \<in> ran (nodes graph). respects_frame tools (func nd))"


section \<open>Validity of the node pointer\<close>

definition valid_current :: "GraphDef \<Rightarrow> RunRecord \<Rightarrow> bool" where
  "valid_current graph run \<longleftrightarrow>
     (case current_node run of None \<Rightarrow> True | Some cn \<Rightarrow> cn \<in> dom (nodes graph))"

text \<open>
  A graph whose static edges lead to declared nodes only, and whose node functions
  name declared nodes only. The engine checks neither.
\<close>

definition edges_ok :: "GraphDef \<Rightarrow> bool" where
  "edges_ok graph \<longleftrightarrow> (\<forall>k t. edges graph k = Some (Some t) \<longrightarrow> t \<in> dom (nodes graph))"

definition overrides_ok :: "GraphDef \<Rightarrow> bool" where
  "overrides_ok graph \<longleftrightarrow>
     (\<forall>nd \<in> ran (nodes graph). \<forall>a ts h nxt.
        fst (func nd a ts h) = Returns (Some nxt) \<longrightarrow> nxt \<in> dom (nodes graph))"

text \<open>The record that \<^verbatim>\<open>run_graph\<close> creates before its loop.\<close>

abbreviation new_run :: "string \<Rightarrow> string \<Rightarrow> GraphDef \<Rightarrow> addr \<Rightarrow> int \<Rightarrow> RunRecord" where
  "new_run run_id gid graph a t0 \<equiv>
     \<lparr>id_r = run_id, graph_id = gid, state = a, current_node = Some (start_node graph),
      log = [], finished = False, started_at = t0, finished_at = None\<rparr>"

section \<open>Example node functions and engines\<close>

text \<open>A node that names itself as its successor, whatever the state.\<close>

definition node_self_loop :: NodeFn where
  "node_self_loop a ts h = (Returns (Some ''extract''), h)"

text \<open>\<^verbatim>\<open>state["seen"] = True; return None\<close>\<close>

definition node_mark :: NodeFn where
  "node_mark a ts h =
     (case dict_of h a of
        Inl e \<Rightarrow> (Raises e, h)
      | Inr d \<Rightarrow> (Returns None, h[a := ODict (AList.update ''seen'' (VBool True) d)]))"

text \<open>\<^verbatim>\<open>state["xs"].append(1); return None\<close>: the list is changed in place.\<close>

definition node_append :: NodeFn where
  "node_append a ts h =
     (case dict_of h a of
        Inl e \<Rightarrow> (Raises e, h)
      | Inr d \<Rightarrow>
          (case map_of d ''xs'' of
             Some (VRef p) \<Rightarrow>
               (if p < length h
                then (case h ! p of
                        OList vs \<Rightarrow> (Returns None, h[p := OList (vs @ [VInt 1])])
                      | ODict d' \<Rightarrow> (Raises (TypeError ''append''), h))
                else (Raises (TypeError ''append''), h))
           | _ \<Rightarrow> (Raises (KeyError ''xs''), h)))"

text \<open>\<^verbatim>\<open>raise Exception("boom")\<close>\<close>

definition node_fail :: NodeFn where
  "node_fail a ts h = (Raises (Exception ''boom''), h)"

text \<open>\<^verbatim>\<open>return "ghost"\<close>, a name that no graph below declares.\<close>

definition node_ghost :: NodeFn where
  "node_ghost a ts h = (Returns (Some ''ghost''), h)"

text \<open>\<^verbatim>\<open>return "b"\<close>\<close>

definition node_goto_b :: NodeFn where
  "node_goto_b a ts h = (Returns (Some ''b''), h)"

definition engine0 :: Engine where
  "engine0 =
     \<lparr>tools_registry = Map.empty,
      node_registry =
        [''loop'' \<mapsto> node_self_loop, ''mark'' \<mapsto> node_mark, ''append'' \<mapsto> node_append,
         ''fail'' \<mapsto> node_fail, ''ghost'' \<mapsto> node_ghost, ''goto_b'' \<mapsto> node_goto_b],
      graphs = Map.empty, runs = Map.empty\<rparr>"

definition mk_graph ::
  "string \<Rightarrow> (string \<times> NodeFn) list \<Rightarrow> (string \<times> string option) list \<Rightarrow> string \<Rightarrow> GraphDef"
where
  "mk_graph gid ns es start =
     \<lparr>id_g = gid, name_g = gid,
      nodes = map_of (map (\<lambda>(k, f). (k, \<lparr>name = k, func = f, description = []\<rparr>)) ns),
      edges = map_of es, start_node = start\<rparr>"

text \<open>Scenario B of the specification: one node, a self-loop by override.\<close>

definition graph_B :: GraphDef where
  "graph_B = mk_graph ''gB'' [(''extract'', node_self_loop)] [] ''extract''"

text \<open>Two nodes that write a key of the state and follow the static edge.\<close>

definition graph_marks :: GraphDef where
  "graph_marks =
     mk_graph ''gM'' [(''a'', node_mark), (''b'', node_mark)] [(''a'', Some ''b''), (''b'', None)] ''a''"

text \<open>A node that appends to a list of the state, twice in a row.\<close>

definition graph_append :: GraphDef where
  "graph_append =
     mk_graph ''gA'' [(''a'', node_append), (''b'', node_append)] [(''a'', Some ''b'')] ''a''"

text \<open>A node that writes a key, followed by a node that raises.\<close>

definition graph_fail :: GraphDef where
  "graph_fail =
     mk_graph ''gF'' [(''a'', node_mark), (''b'', node_fail)] [(''a'', Some ''b'')] ''a''"

text \<open>A node that returns a name the graph does not declare.\<close>

definition graph_ghost :: GraphDef where
  "graph_ghost = mk_graph ''gG'' [(''a'', node_ghost)] [] ''a''"

text \<open>A node whose override differs from its static edge.\<close>

definition graph_branch :: GraphDef where
  "graph_branch =
     mk_graph ''gR'' [(''a'', node_goto_b), (''b'', node_mark), (''c'', node_mark)]
       [(''a'', Some ''c'')] ''a''"

definition engine_with :: "GraphDef \<Rightarrow> Engine" where
  "engine_with graph = add_graph engine0 graph"

text \<open>Stores for the examples: a state with one string, and a state that holds a list.\<close>

definition heap_code :: heap where
  "heap_code = [ODict [(''code'', VStr ''x'')]]"

definition heap_xs :: heap where
  "heap_xs = [OList [], ODict [(''xs'', VRef 0)]]"

section \<open>A node of the shipped workflow\<close>





section \<open>The loop, one iteration at a time\<close>

declare run_loop.simps [simp del]

lemma run_step_InrE:
  assumes "run_step g ts cn stp run h = (Inr run', h')"
  obtains nd d0 ov h2 d1 where
    "nodes g cn = Some nd"
    "dict_of h (state run) = Inr d0"
    "func nd (state run) ts (h @ [ODict d0]) = (Returns ov, h2)"
    "dict_of h2 (state run) = Inr d1"
    "h' = h2 @ [ODict d1]"
    "run' = run\<lparr>log := log run @ [\<lparr>step = stp, node = name nd, before = length h,
                                      after = length h2, next_override = ov\<rparr>],
                current_node := (case ov of Some nxt \<Rightarrow> Some nxt
                                 | None \<Rightarrow> edges_get g (name nd))\<rparr>"
  using assms unfolding run_step_def
  by (auto simp: Let_def split: option.splits sum.splits prod.splits outcome.splits)

lemma run_loop_None [simp]:
  "current_node run = None \<Longrightarrow> run_loop g ts m stp run h = (None, stp, run, h)"
  by (simp add: run_loop.simps)

lemma run_loop_ceiling [simp]:
  "\<not> stp < m \<Longrightarrow> run_loop g ts m stp run h = (None, stp, run, h)"
  by (simp add: run_loop.simps split: option.splits)

lemma run_loop_fault:
  "current_node run = Some cn \<Longrightarrow> stp < m \<Longrightarrow> run_step g ts cn stp run h = (Inl f, h')
    \<Longrightarrow> run_loop g ts m stp run h = (Some f, stp, run, h')"
  by (simp add: run_loop.simps)

lemma run_loop_next:
  "current_node run = Some cn \<Longrightarrow> stp < m \<Longrightarrow> run_step g ts cn stp run h = (Inr run', h')
    \<Longrightarrow> run_loop g ts m stp run h = run_loop g ts m (stp + 1) run' h'"
  by (simp add: run_loop.simps)

lemma run_loop_induct [consumes 0, case_names stop ceiling fault iter]:
  assumes stop: "\<And>g ts m stp run h. current_node run = None \<Longrightarrow> P g ts m stp run h"
    and ceiling: "\<And>g ts m stp run h. \<not> stp < m \<Longrightarrow> P g ts m stp run h"
    and fault: "\<And>g ts m stp run h cn f h'. current_node run = Some cn \<Longrightarrow> stp < m \<Longrightarrow>
                  run_step g ts cn stp run h = (Inl f, h') \<Longrightarrow> P g ts m stp run h"
    and nxt: "\<And>g ts m stp run h cn run' h'. current_node run = Some cn \<Longrightarrow> stp < m \<Longrightarrow>
                  run_step g ts cn stp run h = (Inr run', h') \<Longrightarrow>
                  P g ts m (stp + 1) run' h' \<Longrightarrow> P g ts m stp run h"
  shows "P g ts m stp run h"
proof (induction g ts m stp run h rule: run_loop.induct)
  case (1 g ts m stp run h)
  show ?case
  proof (cases "current_node run")
    case None
    then show ?thesis by (rule stop)
  next
    case (Some cn)
    show ?thesis
    proof (cases "stp < m")
      case False
      then show ?thesis by (rule ceiling)
    next
      case True
      obtain x h' where rs: "run_step g ts cn stp run h = (x, h')"
        by (cases "run_step g ts cn stp run h")
      show ?thesis
      proof (cases x)
        case (Inl f)
        with rs have "run_step g ts cn stp run h = (Inl f, h')" by simp
        then show ?thesis by (rule fault [OF Some True])
      next
        case (Inr run')
        have ih: "P g ts m (stp + 1) run' h'"
          using "1.IH" [OF Some True rs [symmetric] Inr] .
        have rs': "run_step g ts cn stp run h = (Inr run', h')"
          using rs Inr by simp
        show ?thesis
          by (rule nxt [OF Some True rs' ih])
      qed
    qed
  qed
qed

lemma run_step_fields:
  assumes "run_step g ts cn stp run h = (Inr run', h')"
  shows "state run' = state run \<and>
     finished run' = finished run \<and> id_r run' = id_r run \<and> graph_id run' = graph_id run \<and>
     started_at run' = started_at run \<and> finished_at run' = finished_at run"
  using assms by (rule run_step_InrE) simp

lemma run_step_log:
  assumes "run_step g ts cn stp run h = (Inr run', h')"
  shows "\<exists>e. log run' = log run @ [e] \<and> step e = stp"
  using assms by (rule run_step_InrE) simp

lemma run_loop_fields:
  "run_loop g ts m stp run h = (f, stp', run', h') \<Longrightarrow>
     state run' = state run \<and> finished run' = finished run \<and> id_r run' = id_r run \<and>
     graph_id run' = graph_id run \<and> started_at run' = started_at run \<and>
     finished_at run' = finished_at run"
proof (induction g ts m stp run h rule: run_loop_induct)
  case (iter g ts m stp run h cn run1 h1)
  then show ?case
    using run_step_fields [of g ts cn stp run h run1 h1] by (simp add: run_loop_next)
qed (simp_all add: run_loop_fault)

lemma run_loop_counter:
  "run_loop g ts m stp run h = (f, stp', run', h') \<Longrightarrow> stp \<le> stp' \<and> stp' \<le> max stp m"
proof (induction g ts m stp run h rule: run_loop_induct)
  case (iter g ts m stp run h cn run1 h1)
  then show ?case by (simp add: run_loop_next)
qed (simp_all add: run_loop_fault)

lemma run_loop_steps:
  "run_loop g ts m stp run h = (f, stp', run', h') \<Longrightarrow>
     \<exists>es. log run' = log run @ es \<and> map step es = [stp..stp' - 1]"
proof (induction g ts m stp run h rule: run_loop_induct)
  case (iter g ts m stp run h cn run1 h1)
  from iter.prems iter.hyps have rl: "run_loop g ts m (stp + 1) run1 h1 = (f, stp', run', h')"
    by (simp add: run_loop_next)
  from iter.IH [OF rl] obtain es where
    es: "log run' = log run1 @ es" "map step es = [stp + 1..stp' - 1]"
    by (elim exE conjE)
  from run_step_log [OF iter.hyps(3)] obtain e where
    e: "log run1 = log run @ [e]" "step e = stp"
    by (elim exE conjE)
  have "stp + 1 \<le> stp'"
    using run_loop_counter [OF rl] by simp
  then have up: "[stp..stp' - 1] = stp # [stp + 1..stp' - 1]"
    by (simp add: upto_rec1)
  have "log run' = log run @ (e # es)"
    using es(1) e(1) by simp
  moreover have "map step (e # es) = [stp..stp' - 1]"
    using es(2) e(2) up by simp
  ultimately show ?case
    by (intro exI conjI)
qed (simp_all add: run_loop_fault)

lemma run_loop_exit:
  "run_loop g ts m stp run h = (f, stp', run', h') \<Longrightarrow>
     (case f of None \<Rightarrow> current_node run' = None \<or> m \<le> stp'
      | Some ft \<Rightarrow> stp' < m \<and> current_node run' \<noteq> None)"
proof (induction g ts m stp run h rule: run_loop_induct)
  case (iter g ts m stp run h cn run1 h1)
  then show ?case by (simp add: run_loop_next)
qed (auto simp: run_loop_fault)

lemma run_loop_length:
  assumes "run_loop g ts m stp run h = (f, stp', run', h')"
  shows "int (length (log run')) = int (length (log run)) + (stp' - stp)"
proof -
  from run_loop_steps [OF assms] obtain es where
    es: "log run' = log run @ es" "map step es = [stp..stp' - 1]"
    by (elim exE conjE)
  have "length es = length (map step es)" by simp
  also have "\<dots> = nat (stp' - stp)" using es(2) by simp
  finally show ?thesis
    using es(1) run_loop_counter [OF assms] by simp
qed

lemma run_loop_prefix:
  "k \<le> m \<Longrightarrow>
     run_loop g ts m stp run h =
       (case run_loop g ts k stp run h of
          (None, stp', run', h') \<Rightarrow> run_loop g ts m stp' run' h'
        | (Some ft, c) \<Rightarrow> (Some ft, c))"
proof (induction g ts k stp run h rule: run_loop_induct)
  case (fault g ts k stp run h cn f h')
  then show ?case by (simp add: run_loop_fault)
next
  case (iter g ts k stp run h cn run' h')
  then show ?case by (simp add: run_loop_next)
qed simp_all

section \<open>Reachability in the store\<close>





lemma dict_of_Inr: "dict_of h a = Inr d \<longleftrightarrow> a < length h \<and> h ! a = ODict d"
  by (auto simp: dict_of_def split: obj.splits)


lemma frame_kept_refl: "closed h \<Longrightarrow> frame_kept a h h"
  by (simp add: frame_kept_def)







section \<open>Evaluation of the examples and the shape of a run\<close>

lemmas example_defs =
  engine_with_def engine0_def add_graph_def mk_graph_def graph_B_def graph_marks_def
  graph_append_def graph_fail_def graph_ghost_def graph_branch_def heap_code_def heap_xs_def
  node_self_loop_def node_mark_def node_append_def node_fail_def node_ghost_def node_goto_b_def

lemmas eval_defs =
  run_graph_def run_loop.simps run_step_def dict_of_def initial_dict_def edges_get_def
  ToolRegistry_all_def Let_def

lemma run_graph_unfold:
  assumes "graphs eng gid = Some g" and "initial_dict h init = Inr d"
    and "run_loop g (tools_registry eng) m 0 (new_run rid gid g (length h) t0) (h @ [ODict d])
           = (f, n, r0, h')"
  shows "run_graph eng gid init m rid t0 t1 h =
     (case f of
        Some ft \<Rightarrow> (Inl (exn_of ft), eng\<lparr>runs := (runs eng)(rid \<mapsto> r0)\<rparr>, h')
      | None \<Rightarrow>
          (Inr (r0\<lparr>finished := True, finished_at := Some t1\<rparr>),
           eng\<lparr>runs := (runs eng)(rid \<mapsto> r0\<lparr>finished := True, finished_at := Some t1\<rparr>)\<rparr>, h'))"
  using assms by (simp add: run_graph_def ToolRegistry_all_def Let_def split: option.splits)

lemma upto_as_upt: "[0..int n - 1] = map int [0..<n]"
proof (induction n)
  case 0
  show ?case by simp
next
  case (Suc n)
  have "[0..int (Suc n) - 1] = [0..int n - 1] @ [int n]"
    using upto_rec2 [of 0 "int n"] by simp
  with Suc show ?case by simp
qed

subsection \<open>The counter of invocations\<close>

declare run_loop_counted.simps [simp del]

lemma run_step_counted_fst:
  "fst (run_step_counted g ts cn stp run h c) = run_step g ts cn stp run h"
  by (simp add: run_step_counted_def run_step_def invoke_def Let_def
      split: option.splits sum.splits prod.splits outcome.splits)

lemma run_step_counted_calls:
  assumes "run_step_counted g ts cn stp run h c = ((x, h'), c')"
  shows "c \<le> c' \<and> c' \<le> Suc c \<and> (\<forall>r. x = Inr r \<longrightarrow> c' = Suc c) \<and>
         (\<forall>e. x = Inl (NodeLogic e) \<longrightarrow> c' = Suc c) \<and>
         (\<forall>e. x = Inl (NodeLookup e) \<longrightarrow> c' = c)"
  using assms
  by (auto simp: run_step_counted_def invoke_def Let_def
      split: option.splits sum.splits prod.splits outcome.splits)

lemma run_step_counted_eq:
  assumes "run_step g ts cn stp run h = (x, h')"
  shows "\<exists>c'. run_step_counted g ts cn stp run h c = ((x, h'), c')"
proof -
  obtain y c' where "run_step_counted g ts cn stp run h c = (y, c')"
    by (cases "run_step_counted g ts cn stp run h c")
  with run_step_counted_fst [of g ts cn stp run h c] assms show ?thesis by simp
qed

lemma run_loop_counted_calls:
  "run_loop_counted g ts m stp run h c = ((f, n, r, hf), c') \<Longrightarrow>
     run_loop g ts m stp run h = (f, n, r, hf) \<and>
     int c + (n - stp) \<le> int c' \<and> int c' \<le> int c + (n - stp) + 1 \<and>
     (f = None \<longrightarrow> int c' = int c + (n - stp)) \<and>
     (\<forall>e. f = Some (NodeLogic e) \<longrightarrow> int c' = int c + (n - stp) + 1) \<and>
     (\<forall>e. f = Some (NodeLookup e) \<longrightarrow> int c' = int c + (n - stp))"
proof (induction g ts m stp run h arbitrary: c rule: run_loop_induct)
  case (stop g ts m stp run h)
  then show ?case by (simp add: run_loop_counted.simps)
next
  case (ceiling g ts m stp run h)
  then show ?case by (simp add: run_loop_counted.simps split: option.splits)
next
  case (fault g ts m stp run h cn ft h1)
  from run_step_counted_eq [OF fault.hyps(3), of c] obtain c1 where
    sc: "run_step_counted g ts cn stp run h c = ((Inl ft, h1), c1)" by blast
  from fault.hyps(1,2) sc have "run_loop_counted g ts m stp run h c = ((Some ft, stp, run, h1), c1)"
    by (simp add: run_loop_counted.simps)
  with fault.prems have eq: "f = Some ft" "n = stp" "r = run" "hf = h1" "c' = c1" by simp_all
  from run_step_counted_calls [OF sc] eq fault.hyps show ?case
    by (auto simp: run_loop_fault)
next
  case (iter g ts m stp run h cn run1 h1)
  from run_step_counted_eq [OF iter.hyps(3), of c] obtain c1 where
    sc: "run_step_counted g ts cn stp run h c = ((Inr run1, h1), c1)" by blast
  from run_step_counted_calls [OF sc] have c1: "c1 = Suc c" by simp
  from iter.hyps(1,2) sc iter.prems have
    "run_loop_counted g ts m (stp + 1) run1 h1 c1 = ((f, n, r, hf), c')"
    by (simp add: run_loop_counted.simps)
  from iter.IH [OF this] c1 run_loop_next [OF iter.hyps(1-3)] show ?case by auto
qed

lemma run_loop_counted_fst:
  "fst (run_loop_counted g ts m stp run h c) = run_loop g ts m stp run h"
proof -
  obtain f n r hf c' where "run_loop_counted g ts m stp run h c = ((f, n, r, hf), c')"
    by (metis prod.exhaust)
  from run_loop_counted_calls [OF this] this show ?thesis by simp
qed

lemma run_graph_counted_fst:
  "fst (run_graph_counted eng gid init m rid t0 t1 h) = run_graph eng gid init m rid t0 t1 h"
proof (cases "graphs eng gid")
  case None
  then show ?thesis by (simp add: run_graph_counted_def run_graph_def)
next
  case (Some g)
  show ?thesis
  proof (cases "initial_dict h init")
    case (Inl e)
    with Some show ?thesis by (simp add: run_graph_counted_def run_graph_def)
  next
    case (Inr d)
    let ?run = "new_run rid gid g (length h) t0"
    obtain f n r hf c where
      lc: "run_loop_counted g (tools_registry eng) m 0 ?run (h @ [ODict d]) 0 = ((f, n, r, hf), c)"
      by (metis prod.exhaust)
    from run_loop_counted_calls [OF lc] have
      "run_loop g (tools_registry eng) m 0 ?run (h @ [ODict d]) = (f, n, r, hf)" by simp
    with lc Some Inr show ?thesis
      by (cases f) (simp_all add: run_graph_counted_def run_graph_def ToolRegistry_all_def Let_def)
  qed
qed

lemma run_graph_counted_calls:
  assumes "graphs eng gid = Some g" and "initial_dict h init = Inr d"
    and "run_graph_counted eng gid init m rid t0 t1 h = (out, calls)"
  shows "\<exists>f n r hf.
           run_loop_counted g (tools_registry eng) m 0 (new_run rid gid g (length h) t0)
             (h @ [ODict d]) 0 = ((f, n, r, hf), calls)"
proof -
  let ?run = "new_run rid gid g (length h) t0"
  obtain f n r hf c where
    lc: "run_loop_counted g (tools_registry eng) m 0 ?run (h @ [ODict d]) 0 = ((f, n, r, hf), c)"
    by (metis prod.exhaust)
  with assms have "calls = c"
    by (cases f) (simp_all add: run_graph_counted_def ToolRegistry_all_def Let_def)
  with lc show ?thesis by blast
qed

lemmas counted_defs =
  run_graph_counted_def run_loop_counted.simps run_step_counted_def invoke_def

section \<open>Claims about the run loop\<close>

text \<open>
  Claim C10. With a ceiling of 0 the loop body never runs: for a registered graph and an
  initial state that is None or a dictionary, \<^verbatim>\<open>run_graph\<close> returns a finished record
  with an empty log, whose current node is the start node of the graph and whose state
  is a new dictionary holding the items of the initial state; the same record is in the
  run table, and the store has grown by that dictionary only.
\<close>

theorem zero_ceiling_runs_nothing:
  assumes "graphs eng gid = Some g" and "initial_dict h init = Inr d"
  shows "run_graph eng gid init 0 rid t0 t1 h =
     (Inr \<lparr>id_r = rid, graph_id = gid, state = length h, current_node = Some (start_node g),
           log = [], finished = True, started_at = t0, finished_at = Some t1\<rparr>,
      eng\<lparr>runs := (runs eng)(rid \<mapsto>
           \<lparr>id_r = rid, graph_id = gid, state = length h, current_node = Some (start_node g),
            log = [], finished = True, started_at = t0, finished_at = Some t1\<rparr>)\<rparr>,
      h @ [ODict d]) \<and>
     dict_of (h @ [ODict d]) (length h) = Inr d"
  using assms by (simp add: run_graph_def Let_def dict_of_def)

theorem zero_ceiling_runs_nothing_witness:
  "graphs (engine_with graph_marks) ''gM'' = Some graph_marks \<and>
   initial_dict heap_code (Some 0) = Inr [(''code'', VStr ''x'')] \<and>
   fst (run_graph (engine_with graph_marks) ''gM'' (Some 0) 0 ''r1'' 7 9 heap_code) =
     Inr \<lparr>id_r = ''r1'', graph_id = ''gM'', state = 1, current_node = Some ''a'',
          log = [], finished = True, started_at = 7, finished_at = Some 9\<rparr> \<and>
   snd (snd (run_graph (engine_with graph_marks) ''gM'' (Some 0) 0 ''r1'' 7 9 heap_code)) =
     [ODict [(''code'', VStr ''x'')], ODict [(''code'', VStr ''x'')]]"
proof -
  have g: "graphs (engine_with graph_marks) ''gM'' = Some graph_marks"
    by (simp add: example_defs)
  have d: "initial_dict heap_code (Some 0) = Inr [(''code'', VStr ''x'')]"
    by (simp add: initial_dict_def dict_of_def heap_code_def)
  have s: "start_node graph_marks = ''a''" "length heap_code = 1"
    by (simp_all add: example_defs)
  show ?thesis
    using zero_ceiling_runs_nothing [OF g d, of "''r1''" 7 9] g d s
    by (simp add: heap_code_def)
qed

lemma run_graph_counted_shape:
  assumes "graphs eng gid = Some g" and "initial_dict h init = Inr d"
    and "run_graph_counted eng gid init m rid t0 t1 h = ((res, eng', h'), calls)"
  obtains f n r0 hf where
    "run_loop_counted g (tools_registry eng) m 0 (new_run rid gid g (length h) t0)
       (h @ [ODict d]) 0 = ((f, n, r0, hf), calls)"
    and "run_loop g (tools_registry eng) m 0 (new_run rid gid g (length h) t0) (h @ [ODict d])
       = (f, n, r0, hf)"
    and "run_graph eng gid init m rid t0 t1 h = (res, eng', h')"
    and "int (length (log r0)) = n" and "n \<le> max 0 m"
    and "f = None \<longrightarrow> res = Inr (r0\<lparr>finished := True, finished_at := Some t1\<rparr>) \<and>
           runs eng' rid = Some (r0\<lparr>finished := True, finished_at := Some t1\<rparr>)"
    and "\<forall>ft. f = Some ft \<longrightarrow> res = Inl (exn_of ft) \<and> runs eng' rid = Some r0"
proof -
  from run_graph_counted_calls [OF assms] obtain f n r0 hf where
    lc: "run_loop_counted g (tools_registry eng) m 0 (new_run rid gid g (length h) t0)
           (h @ [ODict d]) 0 = ((f, n, r0, hf), calls)"
    by blast
  from run_loop_counted_calls [OF lc] have
    lp: "run_loop g (tools_registry eng) m 0 (new_run rid gid g (length h) t0) (h @ [ODict d])
           = (f, n, r0, hf)"
    by simp
  have rg: "run_graph eng gid init m rid t0 t1 h = (res, eng', h')"
    using run_graph_counted_fst [of eng gid init m rid t0 t1 h] assms(3) by simp
  from run_loop_length [OF lp] have len: "int (length (log r0)) = n" by simp
  from run_loop_counter [OF lp] have cnt: "n \<le> max 0 m" by simp
  note u = run_graph_unfold [OF assms(1,2) lp, of t1]
  have a: "f = None \<longrightarrow> res = Inr (r0\<lparr>finished := True, finished_at := Some t1\<rparr>) \<and>
           runs eng' rid = Some (r0\<lparr>finished := True, finished_at := Some t1\<rparr>)"
    using u rg by auto
  have b: "\<forall>ft. f = Some ft \<longrightarrow> res = Inl (exn_of ft) \<and> runs eng' rid = Some r0"
    using u rg by auto
  from lc lp rg len cnt a b show ?thesis by (rule that)
qed

text \<open>
  Claim C2. \<^verbatim>\<open>run_loop\<close> is a total function (its termination is proved with the
  measure \<open>max_steps - step\<close>), so every call of \<^verbatim>\<open>run_graph\<close> has a result. For a
  registered graph, \<open>calls\<close>, the number of applications of node functions that the call
  of \<^verbatim>\<open>run_graph\<close> made, is never more than \<open>max_steps\<close> (none when the ceiling is not
  positive), and neither is the number of log entries of the stored record. A normal
  return happens exactly when the current node is None or the counter has reached the
  ceiling, and then every invocation has its entry; when an exception ends the run, fewer
  than \<open>max_steps\<close> invocations had completed and at most one more was made. Without
  arguments the ceiling is 100.
\<close>

theorem run_is_bounded:
  assumes "graphs eng gid = Some g" and "initial_dict h init = Inr d"
    and "run_graph_counted eng gid init m rid t0 t1 h = ((res, eng', h'), calls)"
  shows "run_graph eng gid init m rid t0 t1 h = (res, eng', h') \<and> int calls \<le> max 0 m \<and>
         (\<exists>r. runs eng' rid = Some r \<and> int (length (log r)) \<le> max 0 m \<and>
            length (log r) \<le> calls \<and>
            (case res of
               Inr r' \<Rightarrow> r' = r \<and> finished r \<and> calls = length (log r) \<and>
                         (current_node r = None \<or> int (length (log r)) = max 0 m)
             | Inl e \<Rightarrow> \<not> finished r \<and> current_node r \<noteq> None \<and> int (length (log r)) < m \<and>
                         calls \<le> Suc (length (log r)))) \<and>
         run_graph_default eng gid rid t0 t1 h = run_graph eng gid None 100 rid t0 t1 h"
proof -
  from assms obtain f n r0 hf where
    lc: "run_loop_counted g (tools_registry eng) m 0 (new_run rid gid g (length h) t0)
           (h @ [ODict d]) 0 = ((f, n, r0, hf), calls)"
    and lp: "run_loop g (tools_registry eng) m 0 (new_run rid gid g (length h) t0) (h @ [ODict d])
           = (f, n, r0, hf)"
    and rg: "run_graph eng gid init m rid t0 t1 h = (res, eng', h')"
    and len: "int (length (log r0)) = n" and cnt: "n \<le> max 0 m"
    and ok: "f = None \<longrightarrow> res = Inr (r0\<lparr>finished := True, finished_at := Some t1\<rparr>) \<and>
           runs eng' rid = Some (r0\<lparr>finished := True, finished_at := Some t1\<rparr>)"
    and ab: "\<forall>ft. f = Some ft \<longrightarrow> res = Inl (exn_of ft) \<and> runs eng' rid = Some r0"
    by (rule run_graph_counted_shape)
  from run_loop_counted_calls [OF lc] have
    cl: "n \<le> int calls" "int calls \<le> n + 1" "f = None \<longrightarrow> int calls = n"
    by simp_all
  from run_loop_fields [OF lp] have fin: "\<not> finished r0" by simp
  note ex = run_loop_exit [OF lp]
  have dflt: "run_graph_default eng gid rid t0 t1 h = run_graph eng gid None 100 rid t0 t1 h"
    by (simp add: run_graph_default_def)
  show ?thesis
  proof (cases f)
    case None
    let ?r = "r0\<lparr>finished := True, finished_at := Some t1\<rparr>"
    from ex None have "current_node r0 = None \<or> m \<le> n" by simp
    with cnt len have e: "current_node ?r = None \<or> int (length (log ?r)) = max 0 m" by auto
    from cl None len have c: "calls = length (log ?r)" by simp
    from c len cnt have b: "int calls \<le> max 0 m" "int (length (log ?r)) \<le> max 0 m" by simp_all
    from ok None have "res = Inr ?r" "runs eng' rid = Some ?r" by simp_all
    with e c b rg dflt show ?thesis by simp
  next
    case (Some ft)
    from ex Some have lt: "n < m" "current_node r0 \<noteq> None" by simp_all
    from cl lt have b: "int calls \<le> max 0 m" by simp
    from cl len have c: "length (log r0) \<le> calls" "calls \<le> Suc (length (log r0))" by simp_all
    from len cnt lt have l: "int (length (log r0)) \<le> max 0 m" "int (length (log r0)) < m" by simp_all
    from ab Some have "res = Inl (exn_of ft)" "runs eng' rid = Some r0" by simp_all
    with b c l lt(2) fin rg dflt show ?thesis by simp
  qed
qed

theorem run_is_bounded_witness:
  "graphs (engine_with graph_B) ''gB'' = Some graph_B \<and> initial_dict [] None = Inr [] \<and>
   snd (run_graph_counted (engine_with graph_B) ''gB'' None 3 ''r1'' 0 1 []) = 3 \<and>
   (\<exists>r. runs (fst (snd (run_graph (engine_with graph_B) ''gB'' None 3 ''r1'' 0 1 []))) ''r1'' = Some r \<and>
        int (length (log r)) \<le> max 0 3 \<and>
        fst (run_graph (engine_with graph_B) ''gB'' None 3 ''r1'' 0 1 []) = Inr r \<and>
        finished r \<and> int (length (log r)) = 3)"
proof -
  let ?out = "run_graph (engine_with graph_B) ''gB'' None 3 ''r1'' 0 1 []"
  let ?outc = "run_graph_counted (engine_with graph_B) ''gB'' None 3 ''r1'' 0 1 []"
  have g: "graphs (engine_with graph_B) ''gB'' = Some graph_B"
    by (simp add: example_defs)
  have d: "initial_dict [] None = Inr []"
    by (simp add: initial_dict_def)
  have o: "?outc = ((fst (fst ?outc), fst (snd (fst ?outc)), snd (snd (fst ?outc))), snd ?outc)"
    by simp
  have c: "snd ?outc = 3"
    by (simp add: example_defs counted_defs dict_of_def initial_dict_def edges_get_def
        ToolRegistry_all_def Let_def)
  have l: "length (log (the (runs (fst (snd ?out)) ''r1''))) = 3"
    by (simp add: example_defs eval_defs)
  note t = run_is_bounded [OF g d o]
  from t have oo: "?out = (fst (fst ?outc), fst (snd (fst ?outc)), snd (snd (fst ?outc)))"
    by (rule conjunct1)
  from t obtain r where
    r: "runs (fst (snd (fst ?outc))) ''r1'' = Some r" "int (length (log r)) \<le> max 0 3"
       "case fst (fst ?outc) of
          Inr r' \<Rightarrow> r' = r \<and> finished r \<and> snd ?outc = length (log r) \<and>
                    (current_node r = None \<or> int (length (log r)) = max 0 3)
        | Inl e \<Rightarrow> \<not> finished r \<and> current_node r \<noteq> None \<and> int (length (log r)) < 3 \<and>
                    snd ?outc \<le> Suc (length (log r))"
    by blast
  from oo have p: "fst ?out = fst (fst ?outc)" "fst (snd ?out) = fst (snd (fst ?outc))"
    by simp_all
  from r(1) p have s: "runs (fst (snd ?out)) ''r1'' = Some r" by simp
  with l have len: "int (length (log r)) = 3" by simp
  from r(3) len have "fst (fst ?outc) = Inr r \<and> finished r"
    by (cases "fst (fst ?outc)") simp_all
  with p have e: "fst ?out = Inr r" and fin: "finished r" by simp_all
  have "\<exists>r. runs (fst (snd ?out)) ''r1'' = Some r \<and> int (length (log r)) \<le> max 0 3 \<and>
        fst ?out = Inr r \<and> finished r \<and> int (length (log r)) = 3"
    using s r(2) e fin len by (intro exI [of _ r] conjI)
  then show ?thesis using g d c by (intro conjI)
qed

text \<open>
  Claim C8 as stated fails for a run that a node function ends by raising. Node
  \<^verbatim>\<open>"a"\<close> returns and node \<^verbatim>\<open>"b"\<close> raises: the run performed two node invocations, and
  the step fields of its log are 0 alone, not 0 and 1.
\<close>

theorem failing_invocation_has_no_entry_counterexample:
  "graphs (engine_with graph_fail) ''gF'' = Some graph_fail \<and>
   fst (fst (run_graph_counted (engine_with graph_fail) ''gF'' (Some 0) 100 ''r1'' 0 1 heap_code))
     = Inl (Exception ''boom'') \<and>
   snd (run_graph_counted (engine_with graph_fail) ''gF'' (Some 0) 100 ''r1'' 0 1 heap_code) = 2 \<and>
   map step (log (the (runs (fst (snd (fst
     (run_graph_counted (engine_with graph_fail) ''gF'' (Some 0) 100 ''r1'' 0 1 heap_code)))) ''r1'')))
     = [0]"
  by (simp add: example_defs counted_defs dict_of_def initial_dict_def edges_get_def
      ToolRegistry_all_def Let_def)

text \<open>
  Claim C8, amended. In every run that was created, the step fields of the log of the
  stored record are 0, 1, ..., N-1 in this order, N being the number of entries. An entry
  is appended after the node function has returned, so N counts the invocations that
  returned: a run that returns normally made exactly N invocations, and a run that an
  exception ended made N or N + 1 of them, N + 1 when it was a node function that raised
  (that invocation has no entry) and N when the node lookup failed. A record that
  \<^verbatim>\<open>run_graph\<close> returns is the stored one.
\<close>

theorem step_indices_consecutive:
  assumes "graphs eng gid = Some g" and "initial_dict h init = Inr d"
    and "run_graph_counted eng gid init m rid t0 t1 h = ((res, eng', h'), calls)"
  shows "run_graph eng gid init m rid t0 t1 h = (res, eng', h') \<and>
         (\<exists>r. runs eng' rid = Some r \<and> map step (log r) = map int [0..<length (log r)] \<and>
              (\<forall>r'. res = Inr r' \<longrightarrow> r' = r \<and> calls = length (log r)) \<and>
              (\<forall>e. res = Inl e \<longrightarrow> length (log r) \<le> calls \<and> calls \<le> Suc (length (log r)))) \<and>
         (case run_loop_counted g (ToolRegistry_all (tools_registry eng)) m 0
                 (new_run rid gid g (length h) t0) (h @ [ODict d]) 0 of
            ((f, n, r, hf), c) \<Rightarrow>
              c = calls \<and> (f = None \<longrightarrow> c = length (log r)) \<and>
              (\<forall>e. f = Some (NodeLogic e) \<longrightarrow> c = Suc (length (log r))) \<and>
              (\<forall>e. f = Some (NodeLookup e) \<longrightarrow> c = length (log r)))"
proof -
  from assms obtain f n r0 hf where
    lc: "run_loop_counted g (tools_registry eng) m 0 (new_run rid gid g (length h) t0)
           (h @ [ODict d]) 0 = ((f, n, r0, hf), calls)"
    and lp: "run_loop g (tools_registry eng) m 0 (new_run rid gid g (length h) t0) (h @ [ODict d])
           = (f, n, r0, hf)"
    and rg: "run_graph eng gid init m rid t0 t1 h = (res, eng', h')"
    and len: "int (length (log r0)) = n"
    and ok: "f = None \<longrightarrow> res = Inr (r0\<lparr>finished := True, finished_at := Some t1\<rparr>) \<and>
           runs eng' rid = Some (r0\<lparr>finished := True, finished_at := Some t1\<rparr>)"
    and ab: "\<forall>ft. f = Some ft \<longrightarrow> res = Inl (exn_of ft) \<and> runs eng' rid = Some r0"
    by (rule run_graph_counted_shape)
  from run_loop_counted_calls [OF lc] len have
    cl: "length (log r0) \<le> calls" "calls \<le> Suc (length (log r0))"
        "f = None \<longrightarrow> calls = length (log r0)"
        "\<forall>e. f = Some (NodeLogic e) \<longrightarrow> calls = Suc (length (log r0))"
        "\<forall>e. f = Some (NodeLookup e) \<longrightarrow> calls = length (log r0)"
    by auto
  from run_loop_steps [OF lp] have st: "map step (log r0) = [0..n - 1]" by simp
  have idx: "map step (log r0) = map int [0..<length (log r0)]"
    using st len upto_as_upt [of "length (log r0)"] by simp
  have loop: "(case run_loop_counted g (ToolRegistry_all (tools_registry eng)) m 0
                 (new_run rid gid g (length h) t0) (h @ [ODict d]) 0 of
            ((f, n, r, hf), c) \<Rightarrow>
              c = calls \<and> (f = None \<longrightarrow> c = length (log r)) \<and>
              (\<forall>e. f = Some (NodeLogic e) \<longrightarrow> c = Suc (length (log r))) \<and>
              (\<forall>e. f = Some (NodeLookup e) \<longrightarrow> c = length (log r)))"
    using lc cl(3-5) by (simp add: ToolRegistry_all_def)
  have "\<exists>r. runs eng' rid = Some r \<and> map step (log r) = map int [0..<length (log r)] \<and>
              (\<forall>r'. res = Inr r' \<longrightarrow> r' = r \<and> calls = length (log r)) \<and>
              (\<forall>e. res = Inl e \<longrightarrow> length (log r) \<le> calls \<and> calls \<le> Suc (length (log r)))"
  proof (cases f)
    case None
    let ?r = "r0\<lparr>finished := True, finished_at := Some t1\<rparr>"
    from ok None have "res = Inr ?r" "runs eng' rid = Some ?r" by simp_all
    moreover from cl(3) None have "calls = length (log ?r)" by simp
    moreover from idx have "map step (log ?r) = map int [0..<length (log ?r)]" by simp
    ultimately show ?thesis by simp
  next
    case (Some ft)
    from ab Some have "res = Inl (exn_of ft)" "runs eng' rid = Some r0" by simp_all
    with idx cl(1,2) show ?thesis by simp
  qed
  with rg loop show ?thesis by (intro conjI)
qed

theorem step_indices_consecutive_witness:
  "graphs (engine_with graph_marks) ''gM'' = Some graph_marks \<and>
   initial_dict heap_code (Some 0) = Inr [(''code'', VStr ''x'')] \<and>
   snd (run_graph_counted (engine_with graph_marks) ''gM'' (Some 0) 100 ''r1'' 0 1 heap_code) = 2 \<and>
   fst (run_graph (engine_with graph_marks) ''gM'' (Some 0) 100 ''r1'' 0 1 heap_code) \<noteq> Inl (KeyError []) \<and>
   (\<exists>r. runs (fst (snd (run_graph (engine_with graph_marks) ''gM'' (Some 0) 100 ''r1'' 0 1 heap_code))) ''r1''
          = Some r \<and> map step (log r) = [0, 1] \<and> length (log r) = 2)"
proof -
  let ?out = "run_graph (engine_with graph_marks) ''gM'' (Some 0) 100 ''r1'' 0 1 heap_code"
  let ?outc = "run_graph_counted (engine_with graph_marks) ''gM'' (Some 0) 100 ''r1'' 0 1 heap_code"
  have g: "graphs (engine_with graph_marks) ''gM'' = Some graph_marks"
    by (simp add: example_defs)
  have d: "initial_dict heap_code (Some 0) = Inr [(''code'', VStr ''x'')]"
    by (simp add: initial_dict_def dict_of_def heap_code_def)
  have o: "?outc = ((fst (fst ?outc), fst (snd (fst ?outc)), snd (snd (fst ?outc))), snd ?outc)"
    by simp
  have c: "snd ?outc = 2"
    by (simp add: example_defs counted_defs dict_of_def initial_dict_def edges_get_def
        ToolRegistry_all_def Let_def)
  have l: "length (log (the (runs (fst (snd ?out)) ''r1''))) = 2"
    by (simp add: example_defs eval_defs)
  have e: "fst ?out \<noteq> Inl (KeyError [])"
    by (simp add: example_defs eval_defs)
  note t = step_indices_consecutive [OF g d o]
  from t have oo: "?out = (fst (fst ?outc), fst (snd (fst ?outc)), snd (snd (fst ?outc)))"
    by (rule conjunct1)
  from t obtain r where
    r: "runs (fst (snd (fst ?outc))) ''r1'' = Some r"
       "map step (log r) = map int [0..<length (log r)]"
    by blast
  from oo have "fst (snd ?out) = fst (snd (fst ?outc))" by simp
  with r(1) have s: "runs (fst (snd ?out)) ''r1'' = Some r" by simp
  from l s have len: "length (log r) = 2" by simp
  have "map int [0..<2] = [0, 1]" by (simp add: numeral_2_eq_2)
  then have "map step (log r) = [0, 1]" by (simp only: r(2) len)
  then have "\<exists>r. runs (fst (snd ?out)) ''r1'' = Some r \<and> map step (log r) = [0, 1] \<and> length (log r) = 2"
    using s len by (intro exI [of _ r] conjI)
  then show ?thesis using g d c e by (intro conjI)
qed

text \<open>
  Claim C1. One completed iteration of the loop: the node function of the current node
  returned some value \<open>ov\<close>, and the next current node is \<open>ov\<close> itself when \<open>ov\<close> is not
  None, whatever the static edge of that node says; only when \<open>ov\<close> is None is it the
  entry of the static edges for the node's name, a missing entry and an entry that is None
  both giving None. The loop goes on from exactly that record.
\<close>

theorem transition_rule:
  assumes "current_node run = Some cn" and "stp < max_steps"
    and "run_step graph tools cn stp run h = (Inr run', h')"
  shows "\<exists>nd d0 ov h2.
           nodes graph cn = Some nd \<and> dict_of h (state run) = Inr d0 \<and>
           func nd (state run) tools (h @ [ODict d0]) = (Returns ov, h2) \<and>
           current_node run' =
             (case ov of
                Some nxt \<Rightarrow> Some nxt
              | None \<Rightarrow> (case edges graph (name nd) of None \<Rightarrow> None | Some t \<Rightarrow> t)) \<and>
           run_loop graph tools max_steps stp run h =
             run_loop graph tools max_steps (stp + 1) run' h'"
proof -
  from assms(3) obtain nd d0 ov h2 d1 where
    s: "nodes graph cn = Some nd" "dict_of h (state run) = Inr d0"
       "func nd (state run) tools (h @ [ODict d0]) = (Returns ov, h2)"
       "run' = run\<lparr>log := log run @ [\<lparr>step = stp, node = name nd, before = length h,
                                      after = length h2, next_override = ov\<rparr>],
                current_node := (case ov of Some nxt \<Rightarrow> Some nxt
                                 | None \<Rightarrow> edges_get graph (name nd))\<rparr>"
    by (rule run_step_InrE)
  from s(4) have "current_node run' =
      (case ov of Some nxt \<Rightarrow> Some nxt
       | None \<Rightarrow> (case edges graph (name nd) of None \<Rightarrow> None | Some t \<Rightarrow> t))"
    by (simp add: edges_get_def split: option.splits)
  moreover have "run_loop graph tools max_steps stp run h =
      run_loop graph tools max_steps (stp + 1) run' h'"
    by (rule run_loop_next [OF assms])
  ultimately show ?thesis using s(1-3) by blast
qed

theorem transition_rule_witness:
  "current_node (new_run ''r1'' ''gR'' graph_branch 0 0) = Some ''a'' \<and> (0::int) < 5 \<and>
   edges graph_branch ''a'' = Some (Some ''c'') \<and>
   (\<exists>run' h'. run_step graph_branch Map.empty ''a'' 0 (new_run ''r1'' ''gR'' graph_branch 0 0) [ODict []]
                 = (Inr run', h') \<and> current_node run' = Some ''b'' \<and>
               run_loop graph_branch Map.empty 5 0 (new_run ''r1'' ''gR'' graph_branch 0 0) [ODict []] =
               run_loop graph_branch Map.empty 5 1 run' h')"
proof -
  let ?run = "new_run ''r1'' ''gR'' graph_branch 0 0"
  let ?run' = "?run\<lparr>log := [\<lparr>step = 0, node = ''a'', before = 1, after = 2,
                              next_override = Some ''b''\<rparr>], current_node := Some ''b''\<rparr>"
  let ?h' = "[ODict [], ODict [], ODict []]"
  have c: "current_node ?run = Some ''a''" by (simp add: example_defs)
  have l: "(0::int) < 5" by simp
  have e: "edges graph_branch ''a'' = Some (Some ''c'')" by (simp add: example_defs)
  have s: "run_step graph_branch Map.empty ''a'' 0 ?run [ODict []] = (Inr ?run', ?h')"
    by (simp add: example_defs run_step_def dict_of_def Let_def)
  from transition_rule [OF c l s] have
    "run_loop graph_branch Map.empty 5 0 ?run [ODict []] =
     run_loop graph_branch Map.empty 5 (0 + 1) ?run' ?h'"
    by (elim exE conjE)
  then have
    "run_loop graph_branch Map.empty 5 0 ?run [ODict []] = run_loop graph_branch Map.empty 5 1 ?run' ?h'"
    by simp
  moreover have "current_node ?run' = Some ''b''" by simp
  ultimately have "\<exists>run' h'. run_step graph_branch Map.empty ''a'' 0 ?run [ODict []]
                 = (Inr run', h') \<and> current_node run' = Some ''b'' \<and>
               run_loop graph_branch Map.empty 5 0 ?run [ODict []] =
               run_loop graph_branch Map.empty 5 1 run' h'"
    using s by (intro exI [of _ ?run'] exI [of _ ?h'] conjI)
  with c l e show ?thesis by (intro conjI)
qed

subsection \<open>A self-loop runs until the ceiling\<close>






subsection \<open>Building a graph from a specification\<close>

lemma resolve_nodes_Inl:
  "resolve_nodes reg specs ns = Inl e \<Longrightarrow>
     \<exists>pre nm fn post. specs = pre @ (nm, fn) # post \<and> (\<forall>f \<in> snd ` set pre. reg f \<noteq> None) \<and>
        reg fn = None \<and> e = KeyError fn"
proof (induction specs arbitrary: ns)
  case Nil
  then show ?case by simp
next
  case (Cons sp specs)
  obtain nm fn where sp: "sp = (nm, fn)" by (cases sp)
  show ?case
  proof (cases "reg fn")
    case None
    with Cons.prems sp have "e = KeyError fn" by (simp add: NodeRegistry_get_def)
    with None sp have "sp # specs = [] @ (nm, fn) # specs \<and> (\<forall>f \<in> snd ` set []. reg f \<noteq> None) \<and>
        reg fn = None \<and> e = KeyError fn" by simp
    then show ?thesis by blast
  next
    case (Some f)
    with Cons.prems sp have
      "resolve_nodes reg specs (ns(nm \<mapsto> \<lparr>name = nm, func = f, description = []\<rparr>)) = Inl e"
      by (simp add: NodeRegistry_get_def)
    from Cons.IH [OF this] obtain pre nm' fn' post where
      p: "specs = pre @ (nm', fn') # post" "\<forall>f \<in> snd ` set pre. reg f \<noteq> None"
         "reg fn' = None" "e = KeyError fn'"
      by blast
    from p(1) sp have "sp # specs = ((nm, fn) # pre) @ (nm', fn') # post" by simp
    moreover from p(2) Some have "\<forall>f \<in> snd ` set ((nm, fn) # pre). reg f \<noteq> None" by simp
    ultimately show ?thesis using p(3,4) by blast
  qed
qed

lemma resolve_nodes_Inr:
  "resolve_nodes reg specs ns = Inr ns' \<Longrightarrow>
     (\<forall>f \<in> snd ` set specs. reg f \<noteq> None) \<and> dom ns' = dom ns \<union> fst ` set specs"
proof (induction specs arbitrary: ns)
  case Nil
  then show ?case by simp
next
  case (Cons sp specs)
  obtain nm fn where sp: "sp = (nm, fn)" by (cases sp)
  show ?case
  proof (cases "reg fn")
    case None
    with Cons.prems sp show ?thesis by (simp add: NodeRegistry_get_def)
  next
    case (Some f)
    with Cons.prems sp have
      "resolve_nodes reg specs (ns(nm \<mapsto> \<lparr>name = nm, func = f, description = []\<rparr>)) = Inr ns'"
      by (simp add: NodeRegistry_get_def)
    from Cons.IH [OF this] Some sp show ?thesis by auto
  qed
qed

text \<open>
  Claim C5. \<^verbatim>\<open>create_graph_from_spec\<close> fails in two ways, and in both the engine, hence
  its graph table, is returned unchanged. If some function name of \<open>node_specs\<close> is not
  in the node registry, the result is the registry's KeyError carrying the first such
  name in the order of the specs (the UnknownNodeFunction of the specification). If all
  names resolve and \<open>start_node\<close> is not among the node names, the result is the
  ValueError of the source (the InvalidStartNode of the specification).
\<close>

theorem create_graph_failures:
  "((\<exists>fn \<in> snd ` set node_specs. node_registry eng fn = None) \<longrightarrow>
      (\<exists>pre nm' fn post. node_specs = pre @ (nm', fn) # post \<and>
         (\<forall>f \<in> snd ` set pre. node_registry eng f \<noteq> None) \<and> node_registry eng fn = None \<and>
         create_graph_from_spec eng nm node_specs es start gid = (Inl (KeyError fn), eng))) \<and>
   ((\<forall>fn \<in> snd ` set node_specs. node_registry eng fn \<noteq> None) \<and> start \<notin> fst ` set node_specs \<longrightarrow>
      create_graph_from_spec eng nm node_specs es start gid =
        (Inl (ValueError (''start_node '' @ quoted start @ '' not in nodes'')), eng))"
proof (intro conjI impI)
  assume miss: "\<exists>fn \<in> snd ` set node_specs. node_registry eng fn = None"
  show "\<exists>pre nm' fn post. node_specs = pre @ (nm', fn) # post \<and>
         (\<forall>f \<in> snd ` set pre. node_registry eng f \<noteq> None) \<and> node_registry eng fn = None \<and>
         create_graph_from_spec eng nm node_specs es start gid = (Inl (KeyError fn), eng)"
  proof (cases "resolve_nodes (node_registry eng) node_specs Map.empty")
    case (Inr ns)
    from resolve_nodes_Inr [OF Inr] miss show ?thesis by blast
  next
    case (Inl e)
    from resolve_nodes_Inl [OF Inl] obtain pre nm' fn post where
      p: "node_specs = pre @ (nm', fn) # post" "\<forall>f \<in> snd ` set pre. node_registry eng f \<noteq> None"
         "node_registry eng fn = None" "e = KeyError fn"
      by blast
    from Inl p(4) have "create_graph_from_spec eng nm node_specs es start gid = (Inl (KeyError fn), eng)"
      by (simp add: create_graph_from_spec_def)
    with p(1-3) show ?thesis by blast
  qed
next
  assume a: "(\<forall>fn \<in> snd ` set node_specs. node_registry eng fn \<noteq> None) \<and> start \<notin> fst ` set node_specs"
  show "create_graph_from_spec eng nm node_specs es start gid =
        (Inl (ValueError (''start_node '' @ quoted start @ '' not in nodes'')), eng)"
  proof (cases "resolve_nodes (node_registry eng) node_specs Map.empty")
    case (Inl e)
    from resolve_nodes_Inl [OF Inl] a show ?thesis by fastforce
  next
    case (Inr ns)
    from resolve_nodes_Inr [OF Inr] a have "start \<notin> dom ns" by simp
    with Inr show ?thesis by (simp add: create_graph_from_spec_def)
  qed
qed

theorem create_graph_failures_witness:
  "(\<exists>fn \<in> snd ` set [(''a'', ''mark''), (''b'', ''nope'')]. node_registry engine0 fn = None) \<and>
   create_graph_from_spec engine0 ''g'' [(''a'', ''mark''), (''b'', ''nope'')] Map.empty ''a'' ''g1''
     = (Inl (KeyError ''nope''), engine0) \<and>
   node_registry engine0 ''mark'' \<noteq> None \<and>
   ''zz'' \<notin> fst ` set [(''a'', ''mark'')] \<and>
   create_graph_from_spec engine0 ''g'' [(''a'', ''mark'')] Map.empty ''zz'' ''g1''
     = (Inl (ValueError (''start_node '' @ [CHR 0x27] @ ''zz'' @ [CHR 0x27] @ '' not in nodes'')), engine0)"
proof -
  have h1: "\<exists>fn \<in> snd ` set [(''a'', ''mark''), (''b'', ''nope'')]. node_registry engine0 fn = None"
    by (simp add: engine0_def)
  have h2: "(\<forall>fn \<in> snd ` set [(''a'', ''mark'')]. node_registry engine0 fn \<noteq> None) \<and>
            ''zz'' \<notin> fst ` set [(''a'', ''mark'')]"
    by (simp add: engine0_def)
  let ?sp = "[(''a'', ''mark''), (''b'', ''nope'')]"
  have "(\<exists>fn \<in> snd ` set ?sp. node_registry engine0 fn = None) \<longrightarrow>
      (\<exists>pre nm' fn post. ?sp = pre @ (nm', fn) # post \<and>
         (\<forall>f \<in> snd ` set pre. node_registry engine0 f \<noteq> None) \<and> node_registry engine0 fn = None \<and>
         create_graph_from_spec engine0 ''g'' ?sp Map.empty ''a'' ''g1'' = (Inl (KeyError fn), engine0))"
    using create_graph_failures [where node_specs = ?sp and eng = engine0 and nm = "''g''"
        and es = Map.empty and start = "''a''" and gid = "''g1''"]
    by (rule conjunct1)
  then have "\<exists>pre nm' fn post. ?sp = pre @ (nm', fn) # post \<and>
         (\<forall>f \<in> snd ` set pre. node_registry engine0 f \<noteq> None) \<and> node_registry engine0 fn = None \<and>
         create_graph_from_spec engine0 ''g'' ?sp Map.empty ''a'' ''g1'' = (Inl (KeyError fn), engine0)"
    using h1 by (rule mp)
  then obtain pre nm' fn post where
    f: "?sp = pre @ (nm', fn) # post" "node_registry engine0 fn = None"
       "create_graph_from_spec engine0 ''g'' ?sp Map.empty ''a'' ''g1'' = (Inl (KeyError fn), engine0)"
    by (elim exE conjE)
  have "(nm', fn) \<in> set ?sp"
    by (subst f(1)) simp
  then have "fn = ''mark'' \<or> fn = ''nope''" by auto
  with f(2) have "fn = ''nope''" by (auto simp: engine0_def)
  with f(3) have c1: "create_graph_from_spec engine0 ''g'' ?sp Map.empty ''a'' ''g1''
     = (Inl (KeyError ''nope''), engine0)" by simp
  have "(\<forall>fn \<in> snd ` set [(''a'', ''mark'')]. node_registry engine0 fn \<noteq> None) \<and>
          ''zz'' \<notin> fst ` set [(''a'', ''mark'')] \<longrightarrow>
        create_graph_from_spec engine0 ''g'' [(''a'', ''mark'')] Map.empty ''zz'' ''g1''
          = (Inl (ValueError (''start_node '' @ quoted ''zz'' @ '' not in nodes'')), engine0)"
    using create_graph_failures [where node_specs = "[(''a'', ''mark'')]" and eng = engine0
        and nm = "''g''" and es = Map.empty and start = "''zz''" and gid = "''g1''"]
    by (rule conjunct2)
  then have c2: "create_graph_from_spec engine0 ''g'' [(''a'', ''mark'')] Map.empty ''zz'' ''g1''
     = (Inl (ValueError (''start_node '' @ quoted ''zz'' @ '' not in nodes'')), engine0)"
    using h2 by (rule mp)
  have c2': "create_graph_from_spec engine0 ''g'' [(''a'', ''mark'')] Map.empty ''zz'' ''g1''
     = (Inl (ValueError (''start_node '' @ [CHR 0x27] @ ''zz'' @ [CHR 0x27] @ '' not in nodes'')), engine0)"
    using c2 by (simp only: quoted_def append_assoc)
  from h2 have h2a: "\<forall>fn \<in> snd ` set [(''a'', ''mark'')]. node_registry engine0 fn \<noteq> None"
    and h2b: "''zz'' \<notin> fst ` set [(''a'', ''mark'')]"
    by (rule conjunct1, rule conjunct2)
  from h2a have h2c: "node_registry engine0 ''mark'' \<noteq> None" by simp
  from h1 c1 h2c h2b c2' show ?thesis by (intro conjI)
qed

subsection \<open>A node function that raises\<close>

lemma run_graph_Inr_dict:
  assumes "graphs eng gid = Some g" and "run_graph eng gid init m rid t0 t1 h = (Inr r, eng', h')"
  shows "\<exists>d. initial_dict h init = Inr d"
  using assms by (cases "initial_dict h init") (simp_all add: run_graph_def)

text \<open>
  Claim C6. The engine has no handler around the call of the node function. If the
  first \<open>k\<close> steps of a run complete (the same call with ceiling \<open>k\<close> returns a record
  whose current node is \<open>cn\<close>) and the node function of \<open>cn\<close> raises \<open>e\<close> on the state
  reached then, every call with a larger ceiling ends with the exception \<open>e\<close>, and the
  record left in the run table is that of the \<open>k\<close> completed steps with
  \<open>finished = False\<close> and no \<open>finished_at\<close>: its log has exactly \<open>k\<close> entries, none for
  the failing step.
\<close>

theorem node_failure_aborts_run:
  assumes "graphs eng gid = Some g"
    and "run_graph eng gid init (int k) rid t0 t1 h = (Inr rk, engk, hk)"
    and "current_node rk = Some cn" and "nodes g cn = Some nd"
    and "dict_of hk (state rk) = Inr d0"
    and "func nd (state rk) (ToolRegistry_all (tools_registry eng)) (hk @ [ODict d0]) = (Raises e, h2)"
    and "int k < m"
  shows "run_graph eng gid init m rid t0 t1 h =
           (Inl e, eng\<lparr>runs := (runs eng)(rid \<mapsto> rk\<lparr>finished := False, finished_at := None\<rparr>)\<rparr>, h2) \<and>
         length (log rk) = k"
proof -
  let ?ts = "tools_registry eng"
  let ?run = "new_run rid gid g (length h) t0"
  from run_graph_Inr_dict [OF assms(1,2)] obtain d where d: "initial_dict h init = Inr d" ..
  obtain f n r0 hf where
    lk: "run_loop g ?ts (int k) 0 ?run (h @ [ODict d]) = (f, n, r0, hf)"
    using prod_cases4 by blast
  from run_graph_unfold [OF assms(1) d lk, of t1] assms(2) have
    f: "f = None" and rk: "rk = r0\<lparr>finished := True, finished_at := Some t1\<rparr>" and hk: "hk = hf"
    by (cases f; simp)+
  from rk assms(3) have cur: "current_node r0 = Some cn" by simp
  from run_loop_exit [OF lk] f cur have "int k \<le> n" by simp
  moreover from run_loop_counter [OF lk] have "n \<le> int k" by simp
  ultimately have n: "n = int k" by simp
  from run_loop_fields [OF lk] have fld: "\<not> finished r0" "finished_at r0 = None" by simp_all
  from run_loop_length [OF lk] n have len: "length (log r0) = k" by simp
  have st: "state r0 = state rk" using rk by simp
  have rs: "run_step g ?ts cn (int k) r0 hk = (Inl (NodeLogic e), h2)"
    using assms(4,5,6) st by (simp add: run_step_def ToolRegistry_all_def)
  have "run_loop g ?ts m 0 ?run (h @ [ODict d]) = run_loop g ?ts m (int k) r0 hk"
    using run_loop_prefix [of "int k" m g ?ts 0 ?run "h @ [ODict d]"] assms(7) lk f n hk
    by simp
  also have "\<dots> = (Some (NodeLogic e), int k, r0, h2)"
    by (rule run_loop_fault [OF cur assms(7) rs])
  finally have lm: "run_loop g ?ts m 0 ?run (h @ [ODict d]) = (Some (NodeLogic e), int k, r0, h2)" .
  have undo: "rk\<lparr>finished := False, finished_at := None\<rparr> = r0"
    using rk fld by simp
  from run_graph_unfold [OF assms(1) d lm, of t1] undo len rk show ?thesis by simp
qed

theorem node_failure_aborts_run_witness:
  "graphs (engine_with graph_fail) ''gF'' = Some graph_fail \<and>
   fst (run_graph (engine_with graph_fail) ''gF'' (Some 0) (int 1) ''r1'' 0 1 heap_code) =
     Inr \<lparr>id_r = ''r1'', graph_id = ''gF'', state = 1, current_node = Some ''b'',
          log = [\<lparr>step = 0, node = ''a'', before = 2, after = 3, next_override = None\<rparr>],
          finished = True, started_at = 0, finished_at = Some 1\<rparr> \<and>
   nodes graph_fail ''b'' = Some \<lparr>name = ''b'', func = node_fail, description = []\<rparr> \<and>
   int 1 < 100 \<and>
   fst (run_graph (engine_with graph_fail) ''gF'' (Some 0) 100 ''r1'' 0 1 heap_code) =
     Inl (Exception ''boom'') \<and>
   runs (fst (snd (run_graph (engine_with graph_fail) ''gF'' (Some 0) 100 ''r1'' 0 1 heap_code))) ''r1'' =
     Some \<lparr>id_r = ''r1'', graph_id = ''gF'', state = 1, current_node = Some ''b'',
          log = [\<lparr>step = 0, node = ''a'', before = 2, after = 3, next_override = None\<rparr>],
          finished = False, started_at = 0, finished_at = None\<rparr>"
proof -
  let ?eng = "engine_with graph_fail"
  let ?rk = "\<lparr>id_r = ''r1'', graph_id = ''gF'', state = 1, current_node = Some ''b'',
          log = [\<lparr>step = 0, node = ''a'', before = 2, after = 3, next_override = None\<rparr>],
          finished = True, started_at = 0, finished_at = Some 1\<rparr>"
  let ?d = "[(''code'', VStr ''x''), (''seen'', VBool True)]"
  let ?hk = "[ODict [(''code'', VStr ''x'')], ODict ?d, ODict [(''code'', VStr ''x'')], ODict ?d]"
  let ?outk = "run_graph ?eng ''gF'' (Some 0) (int 1) ''r1'' 0 1 heap_code"
  have g: "graphs ?eng ''gF'' = Some graph_fail" by (simp add: example_defs)
  have k: "?outk = (Inr ?rk, fst (snd ?outk), ?hk)"
    by (simp add: example_defs eval_defs prod_eq_iff)
  have c: "current_node ?rk = Some ''b''" by simp
  have n: "nodes graph_fail ''b'' = Some \<lparr>name = ''b'', func = node_fail, description = []\<rparr>"
    by (simp add: example_defs)
  have d: "dict_of ?hk (state ?rk) = Inr ?d" by (simp add: dict_of_def)
  have f: "func \<lparr>name = ''b'', func = node_fail, description = []\<rparr> (state ?rk)
             (ToolRegistry_all (tools_registry ?eng)) (?hk @ [ODict ?d])
           = (Raises (Exception ''boom''), ?hk @ [ODict ?d])"
    by (simp add: node_fail_def)
  have m: "int 1 < 100" by simp
  from node_failure_aborts_run [OF g k c n d f m] have
    "run_graph ?eng ''gF'' (Some 0) 100 ''r1'' 0 1 heap_code =
       (Inl (Exception ''boom''),
        ?eng\<lparr>runs := (runs ?eng)(''r1'' \<mapsto> ?rk\<lparr>finished := False, finished_at := None\<rparr>)\<rparr>,
        ?hk @ [ODict ?d])"
    by (rule conjunct1)
  then have "fst (run_graph ?eng ''gF'' (Some 0) 100 ''r1'' 0 1 heap_code) = Inl (Exception ''boom'')"
    and "runs (fst (snd (run_graph ?eng ''gF'' (Some 0) 100 ''r1'' 0 1 heap_code))) ''r1'' =
          Some (?rk\<lparr>finished := False, finished_at := None\<rparr>)"
    by simp_all
  moreover from k have "fst ?outk = Inr ?rk" by (simp add: prod_eq_iff)
  ultimately show ?thesis using g n m by simp
qed

subsection \<open>The node pointer\<close>

lemma run_step_valid:
  assumes "edges_ok g" and "overrides_ok g" and "run_step g ts cn stp run h = (Inr run', h')"
  shows "valid_current g run'"
proof -
  from assms(3) obtain nd d0 ov h2 where
    s: "nodes g cn = Some nd" "func nd (state run) ts (h @ [ODict d0]) = (Returns ov, h2)"
       "current_node run' = (case ov of Some nxt \<Rightarrow> Some nxt | None \<Rightarrow> edges_get g (name nd))"
    by (rule run_step_InrE) simp
  from s(1) have inran: "nd \<in> ran (nodes g)" by (auto simp: ran_def)
  show ?thesis
  proof (cases ov)
    case (Some nxt)
    with s(2) have "fst (func nd (state run) ts (h @ [ODict d0])) = Returns (Some nxt)" by simp
    with assms(2) inran have "nxt \<in> dom (nodes g)" unfolding overrides_ok_def by blast
    with s(3) Some show ?thesis by (simp add: valid_current_def)
  next
    case None
    show ?thesis
    proof (cases "edges_get g (name nd)")
      case None
      with s(3) \<open>ov = None\<close> show ?thesis by (simp add: valid_current_def)
    next
      case (Some t)
      then have "edges g (name nd) = Some (Some t)"
        by (simp add: edges_get_def split: option.splits)
      with assms(1) have "t \<in> dom (nodes g)" unfolding edges_ok_def by blast
      with s(3) \<open>ov = None\<close> Some show ?thesis by (simp add: valid_current_def)
    qed
  qed
qed

lemma run_step_no_lookup_fault:
  assumes "nodes g cn = Some nd" and "run_step g ts cn stp run h = (Inl f, h')"
  shows "f \<noteq> NodeLookup e"
  using assms
  by (auto simp: run_step_def Let_def split: sum.splits prod.splits outcome.splits)

lemma run_loop_valid:
  "edges_ok g \<Longrightarrow> overrides_ok g \<Longrightarrow> valid_current g run \<Longrightarrow>
     run_loop g ts m stp run h = (f, n, r, h') \<Longrightarrow>
     valid_current g r \<and> (\<forall>e. f \<noteq> Some (NodeLookup e))"
proof (induction g ts m stp run h rule: run_loop_induct)
  case (stop g ts m stp run h)
  then show ?case by simp
next
  case (ceiling g ts m stp run h)
  then show ?case by simp
next
  case (fault g ts m stp run h cn ft h1)
  from fault.prems(3) fault.hyps(1) obtain nd where nd: "nodes g cn = Some nd"
    by (auto simp: valid_current_def)
  from run_step_no_lookup_fault [OF nd fault.hyps(3)] have "\<forall>e. ft \<noteq> NodeLookup e" by blast
  with fault show ?case by (auto simp: run_loop_fault)
next
  case (iter g ts m stp run h cn run1 h1)
  have "valid_current g run1"
    by (rule run_step_valid [OF iter.prems(1,2) iter.hyps(3)])
  moreover have "run_loop g ts m (stp + 1) run1 h1 = (f, n, r, h')"
    using iter.prems(4) iter.hyps by (simp add: run_loop_next)
  ultimately show ?case by (rule iter.IH [OF iter.prems(1,2)])
qed

text \<open>
  Claim C4 as stated fails. The engine accepts a graph whose node function returns a name
  that the graph does not declare: after one step the current node of the run is
  \<^verbatim>\<open>"ghost"\<close>, which is neither None nor a key of the node mapping, and the lookup at
  the top of the next iteration raises KeyError.
\<close>

theorem override_not_validated_counterexample:
  "create_graph_from_spec engine0 ''gG'' [(''a'', ''ghost'')] Map.empty ''a'' ''gG''
     = (Inr graph_ghost, engine_with graph_ghost) \<and>
   nodes graph_ghost ''ghost'' = None \<and>
   map_option current_node
     (runs (fst (snd (run_graph (engine_with graph_ghost) ''gG'' None 1 ''r1'' 0 1 []))) ''r1'')
     = Some (Some ''ghost'') \<and>
   \<not> valid_current graph_ghost
       (the (runs (fst (snd (run_graph (engine_with graph_ghost) ''gG'' None 1 ''r1'' 0 1 []))) ''r1'')) \<and>
   fst (run_graph (engine_with graph_ghost) ''gG'' None 100 ''r1'' 0 1 []) = Inl (KeyError ''ghost'')"
proof (intro conjI)
  show "create_graph_from_spec engine0 ''gG'' [(''a'', ''ghost'')] Map.empty ''a'' ''gG''
     = (Inr graph_ghost, engine_with graph_ghost)"
    by (simp add: create_graph_from_spec_def NodeRegistry_get_def Let_def example_defs)
  show "nodes graph_ghost ''ghost'' = None"
    by (simp add: example_defs)
  show "map_option current_node
     (runs (fst (snd (run_graph (engine_with graph_ghost) ''gG'' None 1 ''r1'' 0 1 []))) ''r1'')
     = Some (Some ''ghost'')"
    by (simp add: example_defs eval_defs)
  show "\<not> valid_current graph_ghost
       (the (runs (fst (snd (run_graph (engine_with graph_ghost) ''gG'' None 1 ''r1'' 0 1 []))) ''r1''))"
    by (simp add: valid_current_def example_defs eval_defs)
  show "fst (run_graph (engine_with graph_ghost) ''gG'' None 100 ''r1'' 0 1 []) = Inl (KeyError ''ghost'')"
    by (simp add: example_defs eval_defs)
qed

text \<open>
  Claim C4, amended. The engine validates neither the value a node function returns nor
  the targets of the static edges. When the start node is declared (which
  \<^verbatim>\<open>create_graph_from_spec\<close> checks), every static edge leads to a declared node and
  every node function returns None or a declared name, then for every ceiling, that is at
  the top of every iteration, the current node is None or a key of the node mapping, and
  the loop never ends by a failed node lookup.
\<close>

theorem current_node_stays_valid:
  assumes "graphs eng gid = Some g" and "initial_dict h init = Inr d"
    and "start_node g \<in> dom (nodes g)" and "edges_ok g" and "overrides_ok g"
  shows "(case run_loop g (ToolRegistry_all (tools_registry eng)) m 0
                 (new_run rid gid g (length h) t0) (h @ [ODict d]) of
            (f, n, r, h') \<Rightarrow> valid_current g r \<and> (\<forall>e. f \<noteq> Some (NodeLookup e))) \<and>
         (\<exists>r. runs (fst (snd (run_graph eng gid init m rid t0 t1 h))) rid = Some r \<and>
              valid_current g r)"
proof -
  let ?run = "new_run rid gid g (length h) t0"
  obtain f n r0 hf where
    lp: "run_loop g (tools_registry eng) m 0 ?run (h @ [ODict d]) = (f, n, r0, hf)"
    using prod_cases4 by blast
  have v0: "valid_current g ?run" using assms(3) by (simp add: valid_current_def)
  from run_loop_valid [OF assms(4,5) v0 lp] have
    v: "valid_current g r0" and nl: "\<forall>e. f \<noteq> Some (NodeLookup e)"
    by simp_all
  have v': "valid_current g (r0\<lparr>finished := True, finished_at := Some t1\<rparr>)"
    using v by (simp add: valid_current_def)
  have "\<exists>r. runs (fst (snd (run_graph eng gid init m rid t0 t1 h))) rid = Some r \<and> valid_current g r"
    using run_graph_unfold [OF assms(1,2) lp, of t1] v v' by (cases f) simp_all
  with lp v nl show ?thesis by (simp add: ToolRegistry_all_def)
qed

lemma overrides_ok_branch: "overrides_ok graph_branch"
  unfolding overrides_ok_def
  by (auto simp: ran_def example_defs split: if_splits sum.splits)

theorem current_node_stays_valid_witness:
  "graphs (engine_with graph_branch) ''gR'' = Some graph_branch \<and>
   initial_dict heap_code (Some 0) = Inr [(''code'', VStr ''x'')] \<and>
   start_node graph_branch \<in> dom (nodes graph_branch) \<and> edges_ok graph_branch \<and>
   overrides_ok graph_branch \<and>
   (\<exists>r. runs (fst (snd (run_graph (engine_with graph_branch) ''gR'' (Some 0) 1 ''r1'' 0 1 heap_code))) ''r1''
          = Some r \<and> valid_current graph_branch r \<and> current_node r = Some ''b'')"
proof -
  let ?out = "run_graph (engine_with graph_branch) ''gR'' (Some 0) 1 ''r1'' 0 1 heap_code"
  have g: "graphs (engine_with graph_branch) ''gR'' = Some graph_branch"
    by (simp add: example_defs)
  have d: "initial_dict heap_code (Some 0) = Inr [(''code'', VStr ''x'')]"
    by (simp add: initial_dict_def dict_of_def heap_code_def)
  have s: "start_node graph_branch \<in> dom (nodes graph_branch)"
    by (simp add: example_defs)
  have e: "edges_ok graph_branch"
    by (simp add: edges_ok_def example_defs)
  have c: "current_node (the (runs (fst (snd ?out)) ''r1'')) = Some ''b''"
    by (simp add: example_defs eval_defs)
  from current_node_stays_valid [OF g d s e overrides_ok_branch, of 1 "''r1''" 0 1]
  obtain r where r: "runs (fst (snd ?out)) ''r1'' = Some r" "valid_current graph_branch r"
    by blast
  from r(1) c have "current_node r = Some ''b''" by simp
  with r have "\<exists>r. runs (fst (snd ?out)) ''r1'' = Some r \<and> valid_current graph_branch r \<and>
      current_node r = Some ''b''"
    by (intro exI [of _ r] conjI)
  with g d s e overrides_ok_branch show ?thesis by (intro conjI)
qed

subsection \<open>Snapshots of the state\<close>








subsection \<open>The example nodes respect the frame\<close>

lemma reach_update_sub:
  assumes "p < length h" and "refs_of ob \<subseteq> refs_of (h ! p)" and "q \<in> reach (h[p := ob]) a"
  shows "q \<in> reach h a"
  using assms(3)
proof (induction rule: reach.induct)
  case start
  show ?case by (rule reach.start)
next
  case (follow q' q)
  show ?case
  proof (cases "q' = p")
    case True
    with follow.hyps(3) assms(1,2) have "q \<in> refs_of (h ! p)" by auto
    with follow.IH True assms(1) show ?thesis by (auto intro: reach.follow)
  next
    case False
    with follow.hyps(2,3) have "q' < length h" "q \<in> refs_of (h ! q')" by simp_all
    with follow.IH show ?thesis by (auto intro: reach.follow)
  qed
qed

lemma frame_kept_update:
  assumes cl: "closed h" and p: "p < length h" and r: "p \<in> reach h a"
    and sub: "refs_of ob \<subseteq> refs_of (h ! p)"
  shows "frame_kept a h (h[p := ob])"
  unfolding frame_kept_def
proof (intro conjI allI impI)
  show "length h \<le> length (h[p := ob])" by simp
  show "closed (h[p := ob])"
    unfolding closed_def
  proof (intro allI impI)
    fix q assume "q < length (h[p := ob])"
    then have q: "q < length h" by simp
    show "refs_of (h[p := ob] ! q) \<subseteq> {..<length (h[p := ob])}"
    proof (cases "q = p")
      case True
      with p sub cl show ?thesis unfolding closed_def by fastforce
    next
      case False
      with q cl show ?thesis unfolding closed_def by fastforce
    qed
  qed
next
  fix q assume q: "q < length h" and nr: "q \<notin> reach h a"
  from nr r have "q \<noteq> p" by blast
  then show "h[p := ob] ! q = h ! q" by simp
  show "q \<notin> reach (h[p := ob]) a"
    using reach_update_sub [OF p sub] nr by blast
qed

lemma refs_of_update:
  "refs_of (ODict (AList.update k v d)) \<subseteq> refs_of (ODict d) \<union> val_refs v"
  by (induction d) auto

lemma respects_frame_const: "respects_frame ts (\<lambda>a ts h. (r, h))"
  by (simp add: respects_frame_def frame_kept_refl)

lemma respects_frame_mark: "respects_frame ts node_mark"
  unfolding respects_frame_def
proof (intro allI impI, elim conjE)
  fix a h assume cl: "closed h" and a: "a < length h"
  show "frame_kept a h (snd (node_mark a ts h))"
  proof (cases "dict_of h a")
    case (Inl e)
    then show ?thesis using cl by (simp add: node_mark_def frame_kept_refl)
  next
    case (Inr d)
    then have ha: "h ! a = ODict d" by (simp add: dict_of_Inr)
    have "refs_of (ODict (AList.update ''seen'' (VBool True) d)) \<subseteq> refs_of (h ! a)"
      using refs_of_update [of "''seen''" "VBool True" d] ha by simp
    from frame_kept_update [OF cl a reach.start this] Inr show ?thesis
      by (simp add: node_mark_def)
  qed
qed


lemma frames_ok_marks: "frames_ok ts graph_marks"
  unfolding frames_ok_def
  by (auto simp: ran_def graph_marks_def mk_graph_def respects_frame_mark split: if_splits)













subsection \<open>The dictionary of the caller\<close>






end
